theory Spec2Isabelle
  imports Complex_Main "HOL-Library.Word"
begin

unbundle bit_operations_syntax

section \<open>Library operations used by the miner\<close>

text \<open>
  The miner works on Go's arbitrary-precision integers (\<^verbatim>\<open>*big.Int\<close>, here \<open>int\<close>),
  on byte slices (\<^verbatim>\<open>[]byte\<close>, here lists of 8-bit words) and on the machine type
  \<^verbatim>\<open>uint\<close> (64 bits on the platforms the tool is built for). The operations below are the
  ones \<^verbatim>\<open>mineWorker\<close> and \<^verbatim>\<open>main\<close> call, with the behaviour the Go libraries give them.
\<close>

type_synonym byte = "8 word"
type_synonym bytes = "byte list"
type_synonym error = string

text \<open>\<^verbatim>\<open>big.Int.Uint64\<close>: the low 64 bits of the magnitude.\<close>

definition Uint64 :: "int \<Rightarrow> 64 word" where
  "Uint64 x = word_of_int \<bar>x\<bar>"

text \<open>
  \<^verbatim>\<open>big.Int.Bytes\<close>: the magnitude as big-endian bytes without leading zeros (no bytes
  for 0). \<^verbatim>\<open>big.Int.SetBytes\<close> reads big-endian bytes as an unsigned integer, and
  \<^verbatim>\<open>big.Int.BitLen\<close> is the length of the magnitude in bits.
\<close>

fun natBytes :: "nat \<Rightarrow> bytes" where
  "natBytes n = (if n = 0 then [] else natBytes (n div 256) @ [of_nat (n mod 256)])"

declare natBytes.simps [simp del]

definition Bytes :: "int \<Rightarrow> bytes" where
  "Bytes x = natBytes (nat \<bar>x\<bar>)"

definition SetBytes :: "bytes \<Rightarrow> int" where
  "SetBytes buf = foldl (\<lambda>acc b. acc * 256 + uint b) 0 buf"

fun natBitLen :: "nat \<Rightarrow> nat" where
  "natBitLen n = (if n = 0 then 0 else Suc (natBitLen (n div 2)))"

declare natBitLen.simps [simp del]

definition BitLen :: "int \<Rightarrow> nat" where
  "BitLen x = natBitLen (nat \<bar>x\<bar>)"

text \<open>
  \<^verbatim>\<open>big.Int.Lsh\<close>: \<open>x\<close> shifted left by \<open>n\<close> bits. For a non-zero \<open>x\<close> and a
  non-zero shift the result is made as a slice of words (64 bits each) with the length
  of the words of \<open>x\<close> plus \<open>n / 64\<close> plus 1, and 4 words more of capacity. The Go
  runtime on a 64-bit platform refuses a slice of more than \<open>2 ^ 48\<close> bytes with a
  panic of \<^verbatim>\<open>makeslice\<close>, which ends the program; this is what happens at line 137
  for a difficulty of 257. Running out of physical memory below that bound depends on
  the machine and is not represented.
\<close>

definition natWords :: "int \<Rightarrow> nat" where
  "natWords x = (BitLen x + 63) div 64"

definition Lsh :: "int \<Rightarrow> nat \<Rightarrow> error + int" where
  "Lsh x n =
     (if x = 0 \<or> n = 0 then Inr x
      else
        let len = natWords x + n div 64 + 1;
            cap = len + 4
        in if 2 ^ 48 < 8 * len then Inl ''runtime error: makeslice: len out of range''
           else if 2 ^ 48 < 8 * cap then Inl ''runtime error: makeslice: cap out of range''
           else Inr (x * 2 ^ n))"

text \<open>\<^verbatim>\<open>big.Int.Cmp\<close>: -1, 0 or 1.\<close>

definition Cmp :: "int \<Rightarrow> int \<Rightarrow> int" where
  "Cmp x y = (if x < y then - 1 else if x = y then 0 else 1)"

text \<open>
  \<^verbatim>\<open>common.LeftPadBytes\<close> of go-ethereum: a slice at least \<open>l\<close> long is returned as it
  is, a shorter one is copied to the right end of \<open>l\<close> zero bytes.
\<close>

definition LeftPadBytes :: "bytes \<Rightarrow> nat \<Rightarrow> bytes" where
  "LeftPadBytes bs l =
     (if l \<le> length bs then bs else replicate (l - length bs) 0 @ bs)"

text \<open>
  \<^verbatim>\<open>io.ReadFull\<close> on a buffer of \<open>k\<close> bytes. One call of the random source is an
  error or the bytes it had to give; fewer than \<open>k\<close> bytes is an error of
  \<^verbatim>\<open>ReadFull\<close> itself.
\<close>

definition ReadFull :: "error + bytes \<Rightarrow> nat \<Rightarrow> error + bytes" where
  "ReadFull r k =
     (case r of
        Inl err \<Rightarrow> Inl err
      | Inr bs \<Rightarrow>
          if k \<le> length bs then Inr (take k bs)
          else if bs = [] then Inl ''EOF'' else Inl ''unexpected EOF'')"

text \<open>
  \<^verbatim>\<open>crypto/rand.Int(rand, max)\<close>, for \<open>max > 0\<close>, is a loop: read \<open>k\<close> bytes, clear
  the bits of the first byte above the bit length of \<open>max - 1\<close>, decode, and return the
  value if it is below \<open>max\<close>, else read again. \<open>rand_Int_pass\<close> is one pass of that
  loop on one read: the value drawn, the read error, or \<open>Again\<close>.
\<close>

datatype draw = Drawn int | Again | Fail error

definition rand_Int_pass :: "error + bytes \<Rightarrow> int \<Rightarrow> draw" where
  "rand_Int_pass r mx =
     (let n = mx - 1;
          bitLen = BitLen n
      in if bitLen = 0 then Drawn 0
         else
           let k = (bitLen + 7) div 8;
               b = (if bitLen mod 8 = 0 then 8 else bitLen mod 8)
           in case ReadFull r k of
                Inl err \<Rightarrow> Fail err
              | Inr buf \<Rightarrow>
                  let buf' = (case buf of [] \<Rightarrow> []
                              | b0 # rest \<Rightarrow> (b0 AND of_nat (2 ^ b - 1)) # rest);
                      n' = SetBytes buf'
                  in if n' < mx then Drawn n' else Again)"

subsection \<open>Target\<close>

text \<open>
  Lines 136 to 137 of \<^verbatim>\<open>main\<close>:
  \<^verbatim>\<open>difficultyUint := uint(difficulty.Uint64())\<close> and
  \<^verbatim>\<open>target := new(big.Int).Lsh(big.NewInt(1), 256-difficultyUint)\<close>.
  The subtraction is on \<^verbatim>\<open>uint\<close> and wraps around; the result is the target, or
  the panic of \<^verbatim>\<open>Lsh\<close>.
\<close>

definition computeTarget :: "int \<Rightarrow> error + int" where
  "computeTarget difficulty =
     (let difficultyUint = Uint64 difficulty
      in Lsh 1 (unat (256 - difficultyUint)))"

subsection \<open>Candidate evaluation\<close>

text \<open>
  The round's problem, fixed before the workers start: the challenge and the difficulty
  read from the contract (both \<^verbatim>\<open>uint256\<close> in the binding), the sender's address and
  the target.
\<close>

record problem =
  challenge :: int
  fromAddress :: bytes
  target :: int

text \<open>
  Lines 59 to 64 of \<^verbatim>\<open>mineWorker\<close>. \<^verbatim>\<open>crypto.Keccak256Hash\<close> is not part of the
  repository; it is the parameter \<open>H\<close>, from the hashed bytes to the 32 bytes of the
  hash, and \<^verbatim>\<open>hash.Big()\<close> is \<open>SetBytes\<close> of those.
\<close>

definition candidateData :: "problem \<Rightarrow> int \<Rightarrow> bytes" where
  "candidateData P nonce =
     (let noncePadded = LeftPadBytes (Bytes nonce) 32;
          challengePadded = LeftPadBytes (Bytes (challenge P)) 32;
          addressBytes = fromAddress P
      in challengePadded @ (addressBytes @ noncePadded))"

definition accepted :: "(bytes \<Rightarrow> bytes) \<Rightarrow> problem \<Rightarrow> int \<Rightarrow> bool" where
  "accepted H P nonce =
     (let hash = H (candidateData P nonce)
      in Cmp (SetBytes hash) (target P) = - 1)"

text \<open>
  The layout in the words of the specification: an integer as exactly \<open>k\<close> bytes,
  most significant first.
\<close>

definition spec_bigEndian :: "nat \<Rightarrow> nat \<Rightarrow> bytes" where
  "spec_bigEndian k n = map (\<lambda>i. of_nat (n div 256 ^ (k - 1 - i) mod 256)) [0..<k]"

subsection \<open>The worker\<close>

text \<open>
  \<^verbatim>\<open>mineWorker\<close> as a transition function. A worker is at the \<^verbatim>\<open>select\<close> at the top
  of its loop, inside \<^verbatim>\<open>rand.Int\<close>, blocked in one of its three channel sends, or has
  returned. It moves on an input from outside: what \<^verbatim>\<open>ctx.Done()\<close> shows, one read of
  the random source, or the receiver taking the value of a blocked send (the channels
  are unbuffered). Each move gives the new position and what the worker did that
  others see. \<^verbatim>\<open>defer wg.Done()\<close> runs at every \<^verbatim>\<open>return\<close>, so each move to
  \<open>Returned\<close> ends with \<open>WgDone\<close>. \<open>Panicked\<close> is the end of the program in a panic
  of \<^verbatim>\<open>Lsh\<close> at line 53; the shift by 256 there never panics.
\<close>

datatype wpc =
    AtSelect
  | AtDraw
  | SendingError error
  | SendingResult int
  | SendingCount
  | Returned
  | Panicked error

datatype event =
    ErrorSent error
  | ResultSent int
  | HashCountSent "64 word"
  | WgDone

datatype winput =
    Ctx bool
  | Rand "error + bytes"
  | Received

fun mineWorker :: "(bytes \<Rightarrow> bytes) \<Rightarrow> problem \<Rightarrow> wpc \<Rightarrow> winput \<Rightarrow> wpc \<times> event list" where
  "mineWorker H P AtSelect (Ctx done) =
     (if done then (Returned, [WgDone]) else (AtDraw, []))"
| "mineWorker H P AtDraw (Rand r) =
     (case Lsh 1 256 of
        Inl panic \<Rightarrow> (Panicked panic, [])
      | Inr mx \<Rightarrow>
          (case rand_Int_pass r mx of
             Fail err \<Rightarrow> (SendingError (''failed to generate random nonce: '' @ err), [])
           | Again \<Rightarrow> (AtDraw, [])
           | Drawn nonce \<Rightarrow>
               if accepted H P nonce then (SendingResult nonce, []) else (SendingCount, [])))"
| "mineWorker H P (SendingError err) Received = (Returned, [ErrorSent err, WgDone])"
| "mineWorker H P (SendingResult nonce) Received = (Returned, [ResultSent nonce, WgDone])"
| "mineWorker H P SendingCount Received = (AtSelect, [HashCountSent 1])"
| "mineWorker H P pc _ = (pc, [])"

text \<open>A worker alone, fed a sequence of inputs: where it ends and all it did.\<close>

fun runWorker :: "(bytes \<Rightarrow> bytes) \<Rightarrow> problem \<Rightarrow> wpc \<Rightarrow> winput list \<Rightarrow> wpc \<times> event list" where
  "runWorker H P pc [] = (pc, [])"
| "runWorker H P pc (i # ins) =
     (let (pc', evs) = mineWorker H P pc i;
          (pc'', evs') = runWorker H P pc' ins
      in (pc'', evs @ evs'))"

text \<open>
  A read of the random source in \<open>ins\<close> failed, and \<open>e\<close> is the message the worker makes
  of that failure.
\<close>

definition randomness_failed :: "winput list \<Rightarrow> error \<Rightarrow> bool" where
  "randomness_failed ins e \<longleftrightarrow>
     (\<exists>i \<in> set ins.
        case i of
          Rand r \<Rightarrow>
            (case ReadFull r 32 of
               Inl err \<Rightarrow> e = ''failed to generate random nonce: '' @ err
             | Inr buf \<Rightarrow> False)
        | _ \<Rightarrow> False)"

subsection \<open>The telemetry goroutine\<close>

text \<open>
  The anonymous goroutine of lines 151 to 163 owns \<^verbatim>\<open>totalHashCount\<close>, a Go \<^verbatim>\<open>int\<close>
  (64 bits, wrapping). On a count it adds the count. On a tick it prints a line made
  from \<^verbatim>\<open>float64(totalHashCount) / 1000.0\<close> with the format \<^verbatim>\<open>%8.2f\<close> and the unit
  \<^verbatim>\<open>K/s\<close>, and sets the counter to 0. Floating-point arithmetic and the formatting of
  numbers are not part of this development: the state keeps, for each line printed, the
  value of the counter the line was made from, and says nothing of the number shown.
\<close>

record aggregator =
  totalHashCount :: "64 word"
  printedFrom :: "64 word list"

datatype agg_input =
    TickerC
  | HashCount "64 word"

fun aggregate :: "agg_input \<Rightarrow> aggregator \<Rightarrow> aggregator" where
  "aggregate TickerC a =
     a\<lparr>printedFrom := printedFrom a @ [totalHashCount a], totalHashCount := 0\<rparr>"
| "aggregate (HashCount c) a = a\<lparr>totalHashCount := totalHashCount a + c\<rparr>"

subsection \<open>The round: \<^verbatim>\<open>main\<close> from line 124 on\<close>


text \<open>
  Lines 140 to 192 run as goroutines: \<^verbatim>\<open>main\<close>, the telemetry goroutine and the
  workers. The state below holds where each of them is and what they share: the
  cancellation of \<open>ctx\<close>, the counter of the wait group, the ticker. \<^verbatim>\<open>main\<close> spawns
  the workers (\<open>Spawn i\<close> is the head of the loop of line 166 with counter \<open>i\<close>), waits
  in the \<^verbatim>\<open>select\<close> of line 171 (\<open>Race\<close>), and after a receive stops the ticker (for a
  nonce only), cancels, waits for the wait group, and goes on with the outcome
  (\<open>Finished\<close>): to the submission of the nonce, or to \<^verbatim>\<open>logger.Fatalf\<close>.
\<close>

datatype outcome =
    Found int
  | Failed error

datatype mpc =
    Spawn nat
  | Race
  | StopTicker int
  | Cancel outcome
  | Wait outcome
  | Finished outcome

record worker =
  pc :: wpc
  reads :: nat

record sys =
  workers :: "worker list"
  cancelled :: bool
  wg :: int
  mainpc :: mpc
  tickerStopped :: bool
  agg :: aggregator
  events :: "(nat \<times> event) list"

text \<open>
  What is fixed for a round: the hash function, the problem, the \<^verbatim>\<open>workerCount\<close> flag
  and the random source, given as the outcome of the \<open>k\<close>-th read of worker \<open>i\<close>.
\<close>

record config =
  Keccak256Hash :: "bytes \<Rightarrow> bytes"
  prob :: problem
  workerCount :: int
  randReader :: "nat \<Rightarrow> nat \<Rightarrow> error + bytes"

definition initial :: sys where
  "initial =
     \<lparr>workers = [], cancelled = False, wg = 0, mainpc = Spawn 0, tickerStopped = False,
      agg = \<lparr>totalHashCount = 0, printedFrom = []\<rparr>, events = []\<rparr>"

text \<open>
  What an event of a worker does to the others. A value sent on \<^verbatim>\<open>resultChan\<close> or
  \<^verbatim>\<open>errorChan\<close> is received by the \<^verbatim>\<open>select\<close> of \<^verbatim>\<open>main\<close>, a count by the telemetry
  goroutine, and \<^verbatim>\<open>wg.Done()\<close> lowers the counter.
\<close>

fun deliver :: "event \<Rightarrow> sys \<Rightarrow> sys" where
  "deliver (ErrorSent err) s = s\<lparr>mainpc := Cancel (Failed err)\<rparr>"
| "deliver (ResultSent nonce) s = s\<lparr>mainpc := StopTicker nonce\<rparr>"
| "deliver (HashCountSent c) s = s\<lparr>agg := aggregate (HashCount c) (agg s)\<rparr>"
| "deliver WgDone s = s\<lparr>wg := wg s - 1\<rparr>"

definition moveWorker :: "config \<Rightarrow> nat \<Rightarrow> winput \<Rightarrow> sys \<Rightarrow> sys" where
  "moveWorker C i inp s =
     (let w = workers s ! i;
          (pc', evs) = mineWorker (Keccak256Hash C) (prob C) (pc w) inp;
          w' = w\<lparr>pc := pc', reads := (case inp of Rand r \<Rightarrow> Suc (reads w) | _ \<Rightarrow> reads w)\<rparr>
      in fold deliver evs
           (s\<lparr>workers := (workers s)[i := w'], events := events s @ map (Pair i) evs\<rparr>))"

text \<open>
  One step of one goroutine. The scheduler picks \<^verbatim>\<open>main\<close>, a worker at its
  \<^verbatim>\<open>select\<close> or in \<^verbatim>\<open>rand.Int\<close>, the receive of a worker's send by \<^verbatim>\<open>main\<close> or by
  the telemetry goroutine, or a tick. A step that cannot be taken (a goroutine that is
  blocked, a receive with no sender) leaves the state as it is. What a worker does on
  its own between two of these points is taken in one step: the draw with the hash and
  the comparison, and the \<^verbatim>\<open>return\<close> after a send with its deferred \<^verbatim>\<open>wg.Done()\<close>.
\<close>

datatype action =
    MainStep
  | WorkerStep nat
  | MainReceives nat
  | CountReceived nat
  | Tick

fun step :: "config \<Rightarrow> action \<Rightarrow> sys \<Rightarrow> sys" where
  "step C MainStep s =
     (case mainpc s of
        Spawn i \<Rightarrow>
          if int i < workerCount C
          then s\<lparr>wg := wg s + 1,
                 workers := workers s @ [\<lparr>pc = AtSelect, reads = 0\<rparr>],
                 mainpc := Spawn (Suc i)\<rparr>
          else s\<lparr>mainpc := Race\<rparr>
      | Race \<Rightarrow> s
      | StopTicker nonce \<Rightarrow> s\<lparr>tickerStopped := True, mainpc := Cancel (Found nonce)\<rparr>
      | Cancel out \<Rightarrow> s\<lparr>cancelled := True, mainpc := Wait out\<rparr>
      | Wait out \<Rightarrow> if wg s = 0 then s\<lparr>mainpc := Finished out\<rparr> else s
      | Finished out \<Rightarrow> s)"
| "step C (WorkerStep i) s =
     (if i < length (workers s)
      then (case pc (workers s ! i) of
              AtSelect \<Rightarrow> moveWorker C i (Ctx (cancelled s)) s
            | AtDraw \<Rightarrow> moveWorker C i (Rand (randReader C i (reads (workers s ! i)))) s
            | _ \<Rightarrow> s)
      else s)"
| "step C (MainReceives i) s =
     (if i < length (workers s) \<and> mainpc s = Race
      then (case pc (workers s ! i) of
              SendingError err \<Rightarrow> moveWorker C i Received s
            | SendingResult nonce \<Rightarrow> moveWorker C i Received s
            | _ \<Rightarrow> s)
      else s)"
| "step C (CountReceived i) s =
     (if i < length (workers s) \<and> pc (workers s ! i) = SendingCount
      then moveWorker C i Received s
      else s)"
| "step C Tick s =
     (if tickerStopped s then s else s\<lparr>agg := aggregate TickerC (agg s)\<rparr>)"

text \<open>A schedule is a list of actions; \<open>exec\<close> runs it from a state.\<close>

fun exec :: "config \<Rightarrow> action list \<Rightarrow> sys \<Rightarrow> sys" where
  "exec C [] s = s"
| "exec C (a # as) s = exec C as (step C a s)"

text \<open>The workers that have not returned.\<close>

definition running :: "sys \<Rightarrow> nat" where
  "running s = length (filter (\<lambda>w. pc w \<noteq> Returned) (workers s))"

text \<open>The telemetry goroutine receiving a sequence of counts.\<close>

definition receiveCounts :: "64 word list \<Rightarrow> aggregator \<Rightarrow> aggregator" where
  "receiveCounts cs a = fold (\<lambda>c. aggregate (HashCount c)) cs a"

text \<open>
  The messages the \<^verbatim>\<open>select\<close> of \<^verbatim>\<open>main\<close> has received, in order, read off the
  events; the outcome \<^verbatim>\<open>main\<close> holds at each of its positions; and the position it is
  at right after the receive.
\<close>

fun terminal :: "event \<Rightarrow> outcome list" where
  "terminal (ResultSent nonce) = [Found nonce]"
| "terminal (ErrorSent err) = [Failed err]"
| "terminal _ = []"

definition consumed :: "sys \<Rightarrow> outcome list" where
  "consumed s = concat (map (\<lambda>(i, e). terminal e) (events s))"

fun decided :: "mpc \<Rightarrow> outcome option" where
  "decided (Spawn i) = None"
| "decided Race = None"
| "decided (StopTicker nonce) = Some (Found nonce)"
| "decided (Cancel out) = Some out"
| "decided (Wait out) = Some out"
| "decided (Finished out) = Some out"

fun begun :: "outcome \<Rightarrow> mpc" where
  "begun (Found nonce) = StopTicker nonce"
| "begun (Failed err) = Cancel (Failed err)"

text \<open>
  The invariant of a round: the counter of the wait group is the number of workers
  that have not returned, \<^verbatim>\<open>main\<close> holds exactly the messages its \<^verbatim>\<open>select\<close> received,
  and \<^verbatim>\<open>main\<close> is past \<^verbatim>\<open>wg.Wait()\<close> only when every worker has returned.
\<close>

definition accounted :: "sys \<Rightarrow> bool" where
  "accounted s \<longleftrightarrow>
     wg s = int (running s)
     \<and> consumed s = (case decided (mainpc s) of None \<Rightarrow> [] | Some out \<Rightarrow> [out])
     \<and> (case mainpc s of Finished out \<Rightarrow> running s = 0 | _ \<Rightarrow> True)"

text \<open>
  A schedule of two workers that both draw a nonce before \<^verbatim>\<open>main\<close> receives one:
  \<^verbatim>\<open>main\<close> spawns both and reaches its \<^verbatim>\<open>select\<close>, each worker passes the check of
  \<open>ctx\<close> and draws, \<^verbatim>\<open>main\<close> receives from worker 0, stops the ticker and cancels.
\<close>

definition raceSchedule :: "action list" where
  "raceSchedule =
     [MainStep, MainStep, MainStep, WorkerStep 0, WorkerStep 0, WorkerStep 1, WorkerStep 1,
      MainReceives 0, MainStep, MainStep]"

text \<open>
  A round to evaluate on: a stand-in hash function whose digest is always 1, a
  challenge of 1, a given target, and a random source whose reads succeed.
\<close>

definition demoConfig :: "int \<Rightarrow> int \<Rightarrow> config" where
  "demoConfig t n =
     \<lparr>Keccak256Hash = (\<lambda>data. replicate 31 0 @ [1]),
      prob = \<lparr>challenge = 1, fromAddress = replicate 20 171, target = t\<rparr>,
      workerCount = n,
      randReader = (\<lambda>i k. Inr (replicate 31 0 @ [of_nat (7 + i + 2 * k)]))\<rparr>"

text \<open>
  Worker \<open>i\<close> is in a send to \<^verbatim>\<open>main\<close> and \<^verbatim>\<open>main\<close> has left its \<^verbatim>\<open>select\<close>.
\<close>

definition blocked :: "nat \<Rightarrow> wpc \<Rightarrow> sys \<Rightarrow> bool" where
  "blocked i p s \<longleftrightarrow>
     i < length (workers s) \<and> pc (workers s ! i) = p
     \<and> (case p of SendingError err \<Rightarrow> True | SendingResult nonce \<Rightarrow> True | _ \<Rightarrow> False)
     \<and> decided (mainpc s) \<noteq> None"



text \<open>
  The number \<open>2 ^ 256\<close> under a name: the bound \<^verbatim>\<open>rand.Int\<close> is given at line 53, and
  the target of difficulty 0, below which every digest of 32 bytes lies.
\<close>

definition two256 :: int where
  "two256 = 2 ^ 256"

text \<open>A round of two workers whose random source fails at every read.\<close>

definition failingConfig :: config where
  "failingConfig =
     \<lparr>Keccak256Hash = (\<lambda>data. replicate 31 0 @ [1]),
      prob = \<lparr>challenge = 1, fromAddress = replicate 20 171, target = 1\<rparr>,
      workerCount = 2,
      randReader = (\<lambda>i k. Inl ''no entropy'')\<rparr>"

text \<open>What worker \<open>i\<close> has done so far that the others have seen, in order.\<close>

definition eventsOf :: "nat \<Rightarrow> sys \<Rightarrow> event list" where
  "eventsOf i s = map snd (filter (\<lambda>(j, e). j = i) (events s))"

section \<open>Target calculator\<close>

lemma unat_Uint64_small:
  assumes "0 \<le> d" and "d \<le> 256"
  shows "unat (Uint64 d) = nat d"
proof -
  have "take_bit 64 d = d"
    using assms by (simp add: take_bit_int_eq_self)
  then show ?thesis
    using assms by (simp add: Uint64_def unat_eq_nat_uint uint_word_of_int_eq)
qed

lemma shift_in_range:
  assumes "0 \<le> d" and "d \<le> 256"
  shows "unat (256 - Uint64 d) = 256 - nat d"
proof -
  have "Uint64 d \<le> 256"
    using unat_Uint64_small [OF assms] assms by (simp add: word_le_nat_alt)
  then have "unat (256 - Uint64 d) = unat (256 :: 64 word) - unat (Uint64 d)"
    by (rule unat_sub)
  then show ?thesis
    using unat_Uint64_small [OF assms] by simp
qed

lemma natWords_1: "natWords 1 = 1"
  by (simp add: natWords_def BitLen_def natBitLen.simps)

lemma Lsh_1_small:
  assumes "n \<le> 65536"
  shows "Lsh 1 n = Inr (2 ^ n)"
proof -
  have "n div 64 \<le> 1024" using assms by simp
  then have "8 * (Suc (n div 64) + 1 + 4) \<le> (2 :: nat) ^ 48" by simp
  then show ?thesis by (simp add: Lsh_def natWords_1 Let_def)
qed

lemma Lsh_1_256 [simp]: "Lsh 1 256 = Inr two256"
  using Lsh_1_small [of 256] by (simp add: two256_def)

lemma computeTarget_in_range:
  assumes "0 \<le> d" and "d \<le> 256"
  shows "computeTarget d = Inr (2 ^ (256 - nat d))"
  using shift_in_range [OF assms] by (simp add: computeTarget_def Lsh_1_small)

text \<open>
  Claim C1. For every difficulty \<open>d\<close> with \<open>0 \<le> d \<le> 256\<close> the target computed by
  \<^verbatim>\<open>main\<close> is \<open>2 ^ (256 - d)\<close>, with no panic, and over that range a larger difficulty
  never gives a larger target.
\<close>

theorem computeTarget_correct:
  assumes "0 \<le> d" and "d \<le> d'" and "d' \<le> 256"
  shows "\<exists>t t'. computeTarget d = Inr t \<and> computeTarget d' = Inr t'
           \<and> t = 2 ^ (256 - nat d) \<and> t' = 2 ^ (256 - nat d') \<and> t' \<le> t"
proof -
  have a: "computeTarget d = Inr (2 ^ (256 - nat d))"
    using assms by (intro computeTarget_in_range) auto
  have b: "computeTarget d' = Inr (2 ^ (256 - nat d'))"
    using assms by (intro computeTarget_in_range) auto
  have "256 - nat d' \<le> 256 - nat d"
    using assms by auto
  then have "(2::int) ^ (256 - nat d') \<le> 2 ^ (256 - nat d)"
    by (rule power_increasing) simp
  with a b show ?thesis by simp
qed

theorem computeTarget_correct_witness:
  "computeTarget 0 = Inr (2 ^ 256) \<and> computeTarget 256 = Inr 1 \<and> (1 :: int) \<le> 2 ^ 256"
  using computeTarget_correct [of 0 256] by simp

section \<open>Bytes and big integers\<close>

lemma natBytes_0 [simp]: "natBytes 0 = []" by (simp add: natBytes.simps)
lemma natBytes_pos: "0 < n \<Longrightarrow> natBytes n = natBytes (n div 256) @ [of_nat (n mod 256)]"
  by (subst natBytes.simps) simp

lemma SetBytes_Nil [simp]: "SetBytes [] = 0" by (simp add: SetBytes_def)
lemma SetBytes_snoc [simp]: "SetBytes (xs @ [b]) = SetBytes xs * 256 + uint b" by (simp add: SetBytes_def)
lemma SetBytes_zeros [simp]: "SetBytes (replicate k 0 @ xs) = SetBytes xs"
proof -
  have "foldl (\<lambda>acc b. acc * 256 + uint b) 0 (replicate k (0::byte)) = 0"
    by (induction k) simp_all
  then show ?thesis by (simp add: SetBytes_def)
qed

lemma SetBytes_replicate_0 [simp]: "SetBytes (replicate k 0) = 0"
  using SetBytes_zeros [of k "[]"] by simp

lemma uint_byte_of_nat: "uint (of_nat (n mod 256) :: byte) = int (n mod 256)"
proof -
  have "unat (of_nat (n mod 256) :: byte) = n mod 256"
    by (simp add: unat_of_nat take_bit_nat_eq_self)
  then show ?thesis by (metis uint_nat)
qed

lemma SetBytes_natBytes: "SetBytes (natBytes n) = int n"
proof (induction n rule: natBytes.induct)
  case (1 n)
  show ?case
  proof (cases "n = 0")
    case True then show ?thesis by simp
  next
    case False
    then have "SetBytes (natBytes n) = SetBytes (natBytes (n div 256)) * 256 + int (n mod 256)"
      by (simp add: natBytes_pos uint_byte_of_nat)
    also have "\<dots> = int (n div 256) * 256 + int (n mod 256)" using 1 False by simp
    also have "\<dots> = int n" by (simp add: zdiv_int zmod_int)
    finally show ?thesis .
  qed
qed

lemma length_natBytes: "n < 256 ^ k \<Longrightarrow> length (natBytes n) \<le> k"
proof (induction k arbitrary: n)
  case 0 then show ?case by simp
next
  case (Suc k)
  show ?case
  proof (cases "n = 0")
    case True then show ?thesis by simp
  next
    case False
    have "n div 256 < 256 ^ k" using Suc.prems by (simp add: less_mult_imp_div_less)
    then have "length (natBytes (n div 256)) \<le> k" by (rule Suc.IH)
    then show ?thesis using False by (simp add: natBytes_pos)
  qed
qed

lemma spec_bigEndian_0 [simp]: "spec_bigEndian 0 n = []" by (simp add: spec_bigEndian_def)
lemma spec_bigEndian_Suc: "spec_bigEndian (Suc k) n = spec_bigEndian k (n div 256) @ [of_nat (n mod 256)]"
proof -
  have "\<And>i. i < k \<Longrightarrow> n div 256 ^ (k - i) = n div 256 div 256 ^ (k - 1 - i)"
  proof -
    fix i assume "i < k"
    then have "k - i = Suc (k - 1 - i)" by simp
    then show "n div 256 ^ (k - i) = n div 256 div 256 ^ (k - 1 - i)"
      by (simp add: div_mult2_eq)
  qed
  then show ?thesis by (simp add: spec_bigEndian_def)
qed

lemma spec_bigEndian_zero: "spec_bigEndian k 0 = replicate k 0"
  by (induction k) (simp_all add: spec_bigEndian_Suc replicate_append_same)

lemma pad_natBytes: "n < 256 ^ k \<Longrightarrow> replicate (k - length (natBytes n)) 0 @ natBytes n = spec_bigEndian k n"
proof (induction k arbitrary: n)
  case 0 then show ?case by simp
next
  case (Suc k)
  show ?case
  proof (cases "n = 0")
    case True then show ?thesis by (simp add: spec_bigEndian_zero)
  next
    case False
    have lt: "n div 256 < 256 ^ k" using Suc.prems by (simp add: less_mult_imp_div_less)
    have len: "length (natBytes (n div 256)) \<le> k" using lt by (rule length_natBytes)
    have "replicate (Suc k - length (natBytes n)) 0 @ natBytes n
        = (replicate (k - length (natBytes (n div 256))) 0 @ natBytes (n div 256)) @ [of_nat (n mod 256)]"
      using False len by (simp add: natBytes_pos)
    also have "\<dots> = spec_bigEndian k (n div 256) @ [of_nat (n mod 256)]" using Suc.IH [OF lt] by simp
    finally show ?thesis by (simp add: spec_bigEndian_Suc)
  qed
qed

lemma LeftPadBytes_spec_bigEndian: "n < 256 ^ k \<Longrightarrow> LeftPadBytes (natBytes n) k = spec_bigEndian k n"
  using length_natBytes [of n k] pad_natBytes [of n k] by (auto simp: LeftPadBytes_def)

lemma natBitLen_pow: "natBitLen (2 ^ k - 1) = k"
proof (induction k)
  case 0 show ?case by (simp add: natBitLen.simps)
next
  case (Suc k)
  have "(2 ^ Suc k - 1) div 2 = (2 ^ k - 1 :: nat)" by simp
  moreover have "(2::nat) ^ Suc k - 1 \<noteq> 0"
  proof -
    have "(1::nat) < 2 ^ Suc k" by (rule one_less_power) simp_all
    then show ?thesis by simp
  qed
  ultimately show ?case using Suc by (subst natBitLen.simps) (simp del: power_Suc)
qed

lemma BitLen_max: "BitLen (two256 - 1) = 256"
proof -
  have "nat \<bar>two256 - 1\<bar> = 2 ^ 256 - 1" by (simp add: two256_def)
  then show ?thesis unfolding BitLen_def by (simp only: natBitLen_pow)
qed

lemma SetBytes_nonneg: "0 \<le> SetBytes bs"
  by (induction bs rule: rev_induct) simp_all

lemma SetBytes_bound: "SetBytes bs < 256 ^ length bs"
proof (induction bs rule: rev_induct)
  case Nil show ?case by simp
next
  case (snoc b bs)
  have "uint b < 256" using uint_bounded [of b] by simp
  then show ?case using snoc by simp
qed

lemma and_255 [simp]: "(x :: byte) AND 255 = x"
proof -
  have "(255 :: byte) = - 1" by simp
  then show ?thesis by (simp only: and.right_neutral)
qed

lemma rand_Int_pass_256:
  "rand_Int_pass r two256 =
     (case ReadFull r 32 of Inl err \<Rightarrow> Fail err | Inr buf \<Rightarrow> Drawn (SetBytes buf))"
proof (cases "ReadFull r 32")
  case (Inl err)
  then show ?thesis by (simp add: rand_Int_pass_def BitLen_max)
next
  case (Inr buf)
  then have len: "length buf = 32"
    by (auto simp: ReadFull_def split: sum.splits if_splits)
  have m: "(case buf of [] \<Rightarrow> [] | b0 # rest \<Rightarrow> (b0 AND of_nat (2 ^ 8 - 1)) # rest) = buf"
    by (cases buf) simp_all
  have "SetBytes buf < 256 ^ 32" using SetBytes_bound [of buf] len by simp
  then have "SetBytes buf < two256" by (simp add: two256_def)
  then show ?thesis using Inr m by (simp add: rand_Int_pass_def BitLen_max)
qed

section \<open>Candidate evaluation and the random nonce\<close>

lemma Bytes_nonneg: "0 \<le> x \<Longrightarrow> Bytes x = natBytes (nat x)"
  by (simp add: Bytes_def)

lemma pow256: "(2::nat) ^ 256 = 256 ^ 32"
  by simp

lemma LeftPadBytes_32:
  assumes "0 \<le> x" and "x < 2 ^ 256"
  shows "LeftPadBytes (Bytes x) 32 = spec_bigEndian 32 (nat x)"
proof -
  have "nat x < 2 ^ 256" using assms by (simp add: nat_less_iff)
  then have "nat x < 256 ^ 32" by (simp only: pow256)
  then show ?thesis using assms by (simp add: Bytes_nonneg LeftPadBytes_spec_bigEndian)
qed

lemma Cmp_less: "Cmp x y = - 1 \<longleftrightarrow> x < y"
  by (simp add: Cmp_def)

lemma drawn_bounds:
  assumes "rand_Int_pass r mx = Drawn n"
  shows "0 \<le> n" and "0 < mx \<Longrightarrow> n < mx"
  using assms SetBytes_nonneg
  by (auto simp: rand_Int_pass_def Let_def split: if_splits sum.splits)

lemma drawn_256:
  assumes "rand_Int_pass r two256 = Drawn nonce"
  shows "0 \<le> nonce" and "nonce < 2 ^ 256"
proof -
  show "0 \<le> nonce" using assms by (rule drawn_bounds)
  have "nonce < two256" using assms by (rule drawn_bounds) (simp add: two256_def)
  then show "nonce < 2 ^ 256" by (simp add: two256_def)
qed

lemma candidateData_layout:
  assumes "0 \<le> challenge P" and "challenge P < 2 ^ 256"
    and "0 \<le> nonce" and "nonce < 2 ^ 256"
  shows "candidateData P nonce
           = spec_bigEndian 32 (nat (challenge P)) @ fromAddress P @ spec_bigEndian 32 (nat nonce)"
  using assms by (simp add: candidateData_def LeftPadBytes_32)

text \<open>
  Claim C2. For a challenge in the range of \<^verbatim>\<open>uint256\<close> (its type in the contract
  binding) and any nonce a worker draws, the bytes hashed are the challenge as 32 bytes
  big-endian, then the address bytes, then the nonce as 32 bytes big-endian; the
  candidate is accepted exactly when the hash of these bytes, read as an unsigned
  integer, is below the target; and the worker goes on to send the nonce in that case
  and a hash count otherwise.
\<close>

theorem candidate_evaluation:
  assumes "0 \<le> challenge P" and "challenge P < 2 ^ 256"
    and "Lsh 1 256 = Inr mx" and "rand_Int_pass r mx = Drawn nonce"
  shows "candidateData P nonce
           = spec_bigEndian 32 (nat (challenge P)) @ fromAddress P @ spec_bigEndian 32 (nat nonce)
       \<and> (accepted H P nonce \<longleftrightarrow>
            SetBytes (H (spec_bigEndian 32 (nat (challenge P)) @ fromAddress P
                          @ spec_bigEndian 32 (nat nonce))) < target P)
       \<and> fst (mineWorker H P AtDraw (Rand r))
           = (if SetBytes (H (spec_bigEndian 32 (nat (challenge P)) @ fromAddress P
                               @ spec_bigEndian 32 (nat nonce))) < target P
              then SendingResult nonce else SendingCount)"
proof -
  have d: "rand_Int_pass r two256 = Drawn nonce"
    using assms(3,4) by simp
  have l: "candidateData P nonce
           = spec_bigEndian 32 (nat (challenge P)) @ fromAddress P @ spec_bigEndian 32 (nat nonce)"
    using assms(1,2) drawn_256 [OF d] by (rule candidateData_layout)
  have a: "accepted H P nonce \<longleftrightarrow> SetBytes (H (candidateData P nonce)) < target P"
    by (simp add: accepted_def Cmp_less)
  show ?thesis
    using d a by (simp add: l [symmetric])
qed

text \<open>
  Claim C10. Every nonce that \<^verbatim>\<open>rand.Int\<close> gives a worker is at least 0 and below
  \<open>2 ^ 256\<close>; its big-endian bytes are at most 32, and padded to 32 bytes they are
  exactly 32 bytes that still decode to the nonce.
\<close>

theorem drawn_nonce_range:
  assumes "Lsh 1 256 = Inr mx" and "rand_Int_pass r mx = Drawn nonce"
  shows "0 \<le> nonce \<and> nonce < 2 ^ 256
       \<and> length (Bytes nonce) \<le> 32
       \<and> length (LeftPadBytes (Bytes nonce) 32) = 32
       \<and> SetBytes (LeftPadBytes (Bytes nonce) 32) = nonce"
proof -
  have d: "rand_Int_pass r two256 = Drawn nonce"
    using assms by simp
  have nn: "0 \<le> nonce" and lt: "nonce < 2 ^ 256"
    using d by (rule drawn_256)+
  have "nat nonce < 2 ^ 256" using nn lt by (simp add: nat_less_iff)
  then have "nat nonce < 256 ^ 32" by (simp only: pow256)
  then have len: "length (natBytes (nat nonce)) \<le> 32" by (rule length_natBytes)
  have dec: "SetBytes (natBytes (nat nonce)) = nonce" using nn by (simp add: SetBytes_natBytes)
  show ?thesis using nn lt len dec by (auto simp: Bytes_nonneg LeftPadBytes_def)
qed

lemma ReadFull_exact: "length bs = k \<Longrightarrow> ReadFull (Inr bs) k = Inr bs"
  by (simp add: ReadFull_def)

theorem candidate_evaluation_witness:
  "Lsh 1 256 = Inr two256
   \<and> rand_Int_pass (Inr (replicate 31 0 @ [2])) two256 = Drawn 2
   \<and> candidateData \<lparr>challenge = 1, fromAddress = [171, 205], target = 2 ^ 255\<rparr> 2
       = spec_bigEndian 32 1 @ [171, 205] @ spec_bigEndian 32 2
   \<and> accepted (take 32) \<lparr>challenge = 1, fromAddress = [171, 205], target = 2 ^ 255\<rparr> 2
   \<and> fst (mineWorker (take 32) \<lparr>challenge = 1, fromAddress = [171, 205], target = 2 ^ 255\<rparr>
            AtDraw (Rand (Inr (replicate 31 0 @ [2]))))
       = SendingResult 2"
proof -
  have d: "rand_Int_pass (Inr (replicate 31 0 @ [2])) two256 = Drawn 2"
    by (simp add: rand_Int_pass_256 ReadFull_exact)
  have e: "spec_bigEndian 32 (Suc 0) = replicate 31 0 @ [1]"
    using LeftPadBytes_32 [of 1] by (simp add: LeftPadBytes_def Bytes_def natBytes_pos)
  show ?thesis
    using d candidate_evaluation [of "\<lparr>challenge = 1, fromAddress = [171, 205], target = 2 ^ 255\<rparr>"
        two256 "Inr (replicate 31 0 @ [2])" 2 "take 32"]
    by (simp add: e)
qed

theorem drawn_nonce_range_witness:
  "Lsh 1 256 = Inr two256
   \<and> rand_Int_pass (Inr (replicate 31 0 @ [7])) two256 = Drawn 7
   \<and> length (Bytes 7) \<le> 32
   \<and> length (LeftPadBytes (Bytes 7) 32) = 32
   \<and> SetBytes (LeftPadBytes (Bytes 7) 32) = 7"
proof -
  have d: "rand_Int_pass (Inr (replicate 31 0 @ [7])) two256 = Drawn 7"
    by (simp add: rand_Int_pass_256 ReadFull_exact)
  show ?thesis using d drawn_nonce_range [OF Lsh_1_256 d] by simp
qed

lemma mineWorker_never_panics:
  assumes "mineWorker H P p inp = (Panicked err, evs)"
  shows "p = Panicked err"
  using assms
  by (cases "(H, P, p, inp)" rule: mineWorker.cases) (auto split: if_splits draw.splits)

lemma runWorker_Returned: "runWorker H P Returned ins = (Returned, [])"
  by (induction ins) simp_all

text \<open>
  One iteration of the loop with a nonce drawn, when the send that ends it is received:
  an accepted candidate is sent on the result channel, with no hash count, and the
  worker returns and does nothing more whatever comes; a rejected candidate gives
  exactly one hash count of 1 and the worker is back at the cancellation check.
\<close>

lemma worker_iteration:
  assumes "rand_Int_pass r two256 = Drawn nonce"
  shows "runWorker H P AtSelect [Ctx False, Rand r, Received]
           = (if accepted H P nonce then (Returned, [ResultSent nonce, WgDone])
              else (AtSelect, [HashCountSent 1]))
       \<and> runWorker H P Returned ins = (Returned, [])"
  using assms by (simp add: runWorker_Returned)

section \<open>The errors of a worker\<close>

lemma mineWorker_ErrorSent:
  assumes "mineWorker H P p i = (p', evs)" and "ErrorSent e \<in> set evs"
  shows "p = SendingError e"
  using assms by (cases "(H, P, p, i)" rule: mineWorker.cases) (auto split: if_splits draw.splits)

lemma mineWorker_SendingError:
  assumes "mineWorker H P p i = (SendingError e, evs)"
  shows "p = SendingError e \<or> randomness_failed [i] e"
  using assms
  by (cases "(H, P, p, i)" rule: mineWorker.cases)
     (auto simp: randomness_failed_def rand_Int_pass_256 split: if_splits draw.splits sum.splits)

lemma randomness_failed_Cons:
  "randomness_failed [i] e \<or> randomness_failed ins e \<Longrightarrow> randomness_failed (i # ins) e"
  by (auto simp: randomness_failed_def)

lemma runWorker_ErrorSent:
  "ErrorSent e \<in> set (snd (runWorker H P p ins)) \<Longrightarrow> p = SendingError e \<or> randomness_failed ins e"
proof (induction ins arbitrary: p)
  case Nil
  then show ?case by simp
next
  case (Cons i ins)
  obtain p' evs where m: "mineWorker H P p i = (p', evs)" by (cases "mineWorker H P p i")
  obtain p'' evs' where r: "runWorker H P p' ins = (p'', evs')" by (cases "runWorker H P p' ins")
  from Cons.prems m r have "ErrorSent e \<in> set evs \<or> ErrorSent e \<in> set evs'" by auto
  then show ?case
  proof
    assume "ErrorSent e \<in> set evs"
    then show ?thesis using m by (auto dest: mineWorker_ErrorSent)
  next
    assume "ErrorSent e \<in> set evs'"
    then have "ErrorSent e \<in> set (snd (runWorker H P p' ins))" using r by simp
    then have "p' = SendingError e \<or> randomness_failed ins e" by (rule Cons.IH)
    then show ?thesis
      using m mineWorker_SendingError [of H P p i e evs] randomness_failed_Cons [of i e ins]
      by auto
  qed
qed

lemma worker_reports_failure:
  assumes "ReadFull r 32 = Inl err"
  shows "runWorker H P AtSelect [Ctx False, Rand r, Received]
           = (Returned, [ErrorSent (''failed to generate random nonce: '' @ err), WgDone])"
  using assms by (simp add: rand_Int_pass_256)

text \<open>
  When the read of the random source fails and the send of the error is received, the
  worker has sent the error on the error channel and returned; and whatever a worker
  is fed from the start of its loop, each error it sends is the message of a failed
  read of the random source.
\<close>

lemma errors_are_failed_reads:
  "(ReadFull r 32 = Inl err \<longrightarrow>
      runWorker H P AtSelect [Ctx False, Rand r, Received]
        = (Returned, [ErrorSent (''failed to generate random nonce: '' @ err), WgDone]))
   \<and> (ErrorSent e \<in> set (snd (runWorker H P AtSelect ins)) \<longrightarrow> randomness_failed ins e)"
  using worker_reports_failure [of r err H P] runWorker_ErrorSent [of e H P AtSelect ins]
  by auto

section \<open>The telemetry goroutine\<close>

text \<open>
  The counter is the sum of the counts received since the last tick, modulo \<open>2 ^ 64\<close>;
  a tick takes that value for its line and leaves the counter at 0.
\<close>

lemma receiveCounts_total:
  "totalHashCount (receiveCounts cs a) = totalHashCount a + sum_list cs"
  unfolding receiveCounts_def
  by (induction cs arbitrary: a) (simp_all add: algebra_simps)

lemma receiveCounts_printedFrom: "printedFrom (receiveCounts cs a) = printedFrom a"
  unfolding receiveCounts_def
  by (induction cs arbitrary: a) simp_all

lemma tick_takes_counter:
  "printedFrom (aggregate TickerC (receiveCounts cs a))
     = printedFrom a @ [totalHashCount a + sum_list cs]
   \<and> totalHashCount (aggregate TickerC (receiveCounts cs a)) = 0"
  by (simp add: receiveCounts_total receiveCounts_printedFrom)

section \<open>The invariant of a round\<close>

lemma count_update:
  "i < length ws \<Longrightarrow>
     int (length (filter Q (ws[i := w])))
       = int (length (filter Q ws)) - (if Q (ws ! i) then 1 else 0) + (if Q w then 1 else 0)"
proof (induction ws arbitrary: i)
  case Nil
  then show ?case by simp
next
  case (Cons x xs)
  show ?case
  proof (cases i)
    case 0
    then show ?thesis by simp
  next
    case (Suc j)
    then have "j < length xs" using Cons.prems by simp
    from Cons.IH [OF this] Suc show ?thesis by (auto split: if_splits)
  qed
qed

lemma running_zero: "running s = 0 \<Longrightarrow> i < length (workers s) \<Longrightarrow> pc (workers s ! i) = Returned"
  unfolding running_def by (metis (mono_tags, lifting) filter_empty_conv length_0_conv nth_mem)

lemma accounted_MainStep: "accounted s \<Longrightarrow> accounted (step C MainStep s)"
  by (auto simp: accounted_def running_def consumed_def split: mpc.splits)

lemma accounted_Tick: "accounted s \<Longrightarrow> accounted (step C Tick s)"
  by (auto simp: accounted_def running_def consumed_def split: mpc.splits)

lemma finished_not_running:
  assumes "accounted s" and "i < length (workers s)" and "pc (workers s ! i) \<noteq> Returned"
  shows "mainpc s \<noteq> Finished out"
proof
  assume "mainpc s = Finished out"
  then have "running s = 0" using assms(1) by (simp add: accounted_def)
  then show False using assms(2,3) running_zero by blast
qed

lemma fold_deliver_workers [simp]: "workers (fold deliver evs s) = workers s"
proof (induction evs arbitrary: s)
  case Nil show ?case by simp
next
  case (Cons e evs) then show ?case by (cases e) simp_all
qed

lemma fold_deliver_events [simp]: "events (fold deliver evs s) = events s"
proof (induction evs arbitrary: s)
  case Nil show ?case by simp
next
  case (Cons e evs) then show ?case by (cases e) simp_all
qed

lemma fold_deliver_wg: "wg (fold deliver evs s) = wg s - int (length (filter (\<lambda>e. e = WgDone) evs))"
proof (induction evs arbitrary: s)
  case Nil show ?case by simp
next
  case (Cons e evs) then show ?case by (cases e) simp_all
qed

lemma fold_deliver_mainpc_quiet:
  "concat (map terminal evs) = [] \<Longrightarrow> mainpc (fold deliver evs s) = mainpc s"
proof (induction evs arbitrary: s)
  case Nil show ?case by simp
next
  case (Cons e evs) then show ?case by (cases e) simp_all
qed

lemma fold_deliver_mainpc_one:
  "concat (map terminal evs) = [out] \<Longrightarrow> mainpc (fold deliver evs s) = begun out"
proof (induction evs arbitrary: s)
  case Nil then show ?case by simp
next
  case (Cons e evs)
  show ?case
  proof (cases e)
    case (ErrorSent err)
    then have "concat (map terminal evs) = []" and "out = Failed err" using Cons.prems by simp_all
    then show ?thesis using ErrorSent by (simp add: fold_deliver_mainpc_quiet)
  next
    case (ResultSent nonce)
    then have "concat (map terminal evs) = []" and "out = Found nonce" using Cons.prems by simp_all
    then show ?thesis using ResultSent by (simp add: fold_deliver_mainpc_quiet)
  next
    case (HashCountSent c)
    then show ?thesis using Cons by simp
  next
    case WgDone
    then show ?thesis using Cons by simp
  qed
qed

lemma mineWorker_done:
  assumes "mineWorker H P p inp = (p', evs)" and "p \<noteq> Returned"
  shows "int (length (filter (\<lambda>e. e = WgDone) evs)) = (if p' = Returned then 1 else 0)"
  using assms
  by (cases "(H, P, p, inp)" rule: mineWorker.cases) (auto split: if_splits draw.splits)

lemma mineWorker_terminal:
  assumes "mineWorker H P p inp = (p', evs)"
  shows "concat (map terminal evs) = []
       \<or> (\<exists>err. p = SendingError err \<and> inp = Received \<and> concat (map terminal evs) = [Failed err])
       \<or> (\<exists>nonce. p = SendingResult nonce \<and> inp = Received \<and> concat (map terminal evs) = [Found nonce])"
  using assms
  by (cases "(H, P, p, inp)" rule: mineWorker.cases) (auto split: if_splits draw.splits)

lemma moveWorker_workers:
  assumes "mineWorker (Keccak256Hash C) (prob C) (pc (workers s ! i)) inp = (p', evs)"
  shows "workers (moveWorker C i inp s)
           = (workers s)[i := (workers s ! i)\<lparr>pc := p', reads := (case inp of Rand r \<Rightarrow> Suc (reads (workers s ! i)) | _ \<Rightarrow> reads (workers s ! i))\<rparr>]"
  using assms by (simp add: moveWorker_def Let_def)

lemma moveWorker_events:
  assumes "mineWorker (Keccak256Hash C) (prob C) (pc (workers s ! i)) inp = (p', evs)"
  shows "events (moveWorker C i inp s) = events s @ map (Pair i) evs"
  using assms by (simp add: moveWorker_def Let_def)

lemma moveWorker_wg:
  assumes "mineWorker (Keccak256Hash C) (prob C) (pc (workers s ! i)) inp = (p', evs)"
  shows "wg (moveWorker C i inp s) = wg s - int (length (filter (\<lambda>e. e = WgDone) evs))"
  using assms by (simp add: moveWorker_def Let_def fold_deliver_wg)

lemma moveWorker_mainpc_quiet:
  assumes "mineWorker (Keccak256Hash C) (prob C) (pc (workers s ! i)) inp = (p', evs)"
    and "concat (map terminal evs) = []"
  shows "mainpc (moveWorker C i inp s) = mainpc s"
  using assms by (simp add: moveWorker_def Let_def fold_deliver_mainpc_quiet)

lemma moveWorker_mainpc_one:
  assumes "mineWorker (Keccak256Hash C) (prob C) (pc (workers s ! i)) inp = (p', evs)"
    and "concat (map terminal evs) = [out]"
  shows "mainpc (moveWorker C i inp s) = begun out"
  using assms by (simp add: moveWorker_def Let_def fold_deliver_mainpc_one)

lemma decided_begun [simp]: "decided (begun out) = Some out"
  by (cases out) simp_all

lemma begun_not_Finished [simp]: "begun out \<noteq> Finished out'"
  by (cases out) simp_all

lemma accounted_moveWorker:
  assumes acc: "accounted s" and i: "i < length (workers s)"
    and live: "pc (workers s ! i) \<noteq> Returned"
    and m: "mineWorker (Keccak256Hash C) (prob C) (pc (workers s ! i)) inp = (p', evs)"
    and race: "concat (map terminal evs) \<noteq> [] \<Longrightarrow> mainpc s = Race"
  shows "accounted (moveWorker C i inp s)"
proof -
  let ?s' = "moveWorker C i inp s"
  have nf: "\<And>out. mainpc s \<noteq> Finished out"
    using acc i live by (rule finished_not_running)
  have "int (running ?s') = int (running s) - 1 + (if p' \<noteq> Returned then 1 else 0)"
    unfolding running_def using i live
    by (simp add: moveWorker_workers [OF m] count_update)
  moreover have "wg ?s' = wg s - (if p' = Returned then 1 else 0)"
    using mineWorker_done [OF m live] by (simp add: moveWorker_wg [OF m])
  ultimately have w: "wg ?s' = int (running ?s')"
    using acc by (simp add: accounted_def)
  have ev: "consumed ?s' = consumed s @ concat (map terminal evs)"
    by (simp add: consumed_def moveWorker_events [OF m] comp_def)
  have rest: "consumed ?s' = (case decided (mainpc ?s') of None \<Rightarrow> [] | Some out \<Rightarrow> [out])
            \<and> (\<forall>out. mainpc ?s' \<noteq> Finished out)"
  proof (cases "concat (map terminal evs) = []")
    case True
    then show ?thesis
      using acc nf ev by (simp add: accounted_def moveWorker_mainpc_quiet [OF m True])
  next
    case False
    then obtain out where out: "concat (map terminal evs) = [out]"
      using mineWorker_terminal [OF m] by auto
    have "mainpc s = Race" using False by (rule race)
    then have "consumed s = []" using acc by (simp add: accounted_def)
    then show ?thesis
      using ev out by (simp add: moveWorker_mainpc_one [OF m out])
  qed
  then have "case mainpc ?s' of Finished out \<Rightarrow> running ?s' = 0 | _ \<Rightarrow> True"
    by (cases "mainpc ?s'") simp_all
  then show ?thesis using w rest unfolding accounted_def by blast
qed

lemma accounted_WorkerStep: "accounted s \<Longrightarrow> accounted (step C (WorkerStep i) s)"
proof -
  assume acc: "accounted s"
  show ?thesis
  proof (cases "i < length (workers s)")
    case False
    then show ?thesis using acc by simp
  next
    case True
    show ?thesis
    proof (cases "pc (workers s ! i)")
      case AtSelect
      obtain p' evs where m: "mineWorker (Keccak256Hash C) (prob C) (pc (workers s ! i)) (Ctx (cancelled s)) = (p', evs)"
        by (cases "mineWorker (Keccak256Hash C) (prob C) (pc (workers s ! i)) (Ctx (cancelled s))")
      have "concat (map terminal evs) = []" using mineWorker_terminal [OF m] by auto
      then have "accounted (moveWorker C i (Ctx (cancelled s)) s)"
        using AtSelect by (intro accounted_moveWorker [OF acc True _ m]) simp_all
      then show ?thesis using True AtSelect by simp
    next
      case AtDraw
      obtain p' evs where m: "mineWorker (Keccak256Hash C) (prob C) (pc (workers s ! i)) (Rand (randReader C i (reads (workers s ! i)))) = (p', evs)"
        by (cases "mineWorker (Keccak256Hash C) (prob C) (pc (workers s ! i)) (Rand (randReader C i (reads (workers s ! i))))")
      have "concat (map terminal evs) = []" using mineWorker_terminal [OF m] by auto
      then have "accounted (moveWorker C i (Rand (randReader C i (reads (workers s ! i)))) s)"
        using AtDraw by (intro accounted_moveWorker [OF acc True _ m]) simp_all
      then show ?thesis using True AtDraw by simp
    qed (use acc True in simp_all)
  qed
qed

lemma accounted_Received:
  assumes acc: "accounted s" and i: "i < length (workers s)"
    and live: "pc (workers s ! i) \<noteq> Returned"
    and race: "mainpc s = Race \<or> pc (workers s ! i) = SendingCount"
  shows "accounted (moveWorker C i Received s)"
proof -
  obtain p' evs where m: "mineWorker (Keccak256Hash C) (prob C) (pc (workers s ! i)) Received = (p', evs)"
    by (cases "mineWorker (Keccak256Hash C) (prob C) (pc (workers s ! i)) Received")
  have "concat (map terminal evs) \<noteq> [] \<Longrightarrow> mainpc s = Race"
    using race mineWorker_terminal [OF m] by auto
  then show ?thesis by (intro accounted_moveWorker [OF acc i live m])
qed

lemma accounted_MainReceives: "accounted s \<Longrightarrow> accounted (step C (MainReceives i) s)"
proof -
  assume acc: "accounted s"
  show ?thesis
  proof (cases "i < length (workers s) \<and> mainpc s = Race")
    case False
    then show ?thesis using acc by auto
  next
    case True
    then show ?thesis
      using acc accounted_Received [OF acc, of i C]
      by (cases "pc (workers s ! i)") simp_all
  qed
qed

lemma accounted_CountReceived: "accounted s \<Longrightarrow> accounted (step C (CountReceived i) s)"
proof -
  assume acc: "accounted s"
  show ?thesis
  proof (cases "i < length (workers s) \<and> pc (workers s ! i) = SendingCount")
    case False
    then show ?thesis using acc by auto
  next
    case True
    then show ?thesis
      using accounted_Received [OF acc, of i C] by simp
  qed
qed

lemma accounted_step: "accounted s \<Longrightarrow> accounted (step C a s)"
  by (cases a)
     (simp_all only: accounted_MainStep accounted_WorkerStep accounted_MainReceives
        accounted_CountReceived accounted_Tick)

lemma accounted_exec: "accounted s \<Longrightarrow> accounted (exec C as s)"
  by (induction as arbitrary: s) (simp_all add: accounted_step)

lemma accounted_initial: "accounted initial"
  by (simp add: accounted_def initial_def running_def consumed_def)

section \<open>A worker blocked in its send\<close>

lemma exec_append: "exec C (as @ bs) s = exec C bs (exec C as s)"
  by (induction as arbitrary: s) simp_all

lemma moveWorker_other:
  assumes "j \<noteq> i" and "i < length (workers s)"
  shows "workers (moveWorker C j inp s) ! i = workers s ! i"
    and "length (workers (moveWorker C j inp s)) = length (workers s)"
proof -
  obtain p' evs where m: "mineWorker (Keccak256Hash C) (prob C) (pc (workers s ! j)) inp = (p', evs)"
    by (cases "mineWorker (Keccak256Hash C) (prob C) (pc (workers s ! j)) inp")
  show "workers (moveWorker C j inp s) ! i = workers s ! i"
    using assms by (simp add: moveWorker_workers [OF m])
  show "length (workers (moveWorker C j inp s)) = length (workers s)"
    by (simp add: moveWorker_workers [OF m])
qed

lemma moveWorker_decided:
  assumes "decided (mainpc s) \<noteq> None" and "inp = Received \<longrightarrow> pc (workers s ! j) = SendingCount"
  shows "mainpc (moveWorker C j inp s) = mainpc s"
proof -
  obtain p' evs where m: "mineWorker (Keccak256Hash C) (prob C) (pc (workers s ! j)) inp = (p', evs)"
    by (cases "mineWorker (Keccak256Hash C) (prob C) (pc (workers s ! j)) inp")
  have "concat (map terminal evs) = []"
    using mineWorker_terminal [OF m] assms(2) by auto
  then show ?thesis by (rule moveWorker_mainpc_quiet [OF m])
qed

lemma blocked_step:
  assumes b: "blocked i p s"
  shows "blocked i p (step C a s)"
proof (cases a)
  case MainStep
  then show ?thesis using b by (auto simp: blocked_def nth_append split: mpc.splits)
next
  case (WorkerStep j)
  show ?thesis
  proof (cases "j = i")
    case True
    then show ?thesis using b WorkerStep by (auto simp: blocked_def split: wpc.splits)
  next
    case False
    then show ?thesis
      using b WorkerStep
      by (auto simp: blocked_def moveWorker_other moveWorker_decided split: wpc.splits)
  qed
next
  case (MainReceives j)
  then show ?thesis using b by (auto simp: blocked_def)
next
  case (CountReceived j)
  show ?thesis
  proof (cases "j = i")
    case True
    then show ?thesis using b CountReceived by (auto simp: blocked_def split: wpc.splits)
  next
    case False
    then show ?thesis
      using b CountReceived
      by (auto simp: blocked_def moveWorker_other moveWorker_decided)
  qed
next
  case Tick
  then show ?thesis using b by (auto simp: blocked_def)
qed

lemma blocked_exec: "blocked i p s \<Longrightarrow> blocked i p (exec C as s)"
  by (induction as arbitrary: s) (simp_all add: blocked_step)

lemma blocked_never_finished:
  assumes "accounted s" and "blocked i p s"
  shows "pc (workers (exec C as s) ! i) = p \<and> mainpc (exec C as s) \<noteq> Finished out"
proof -
  have a: "accounted (exec C as s)" using assms(1) by (rule accounted_exec)
  have b: "blocked i p (exec C as s)" using assms(2) by (rule blocked_exec)
  then have "i < length (workers (exec C as s))" and "pc (workers (exec C as s) ! i) = p" and "p \<noteq> Returned"
    by (auto simp: blocked_def)
  then show ?thesis using finished_not_running [OF a, of i] by simp
qed

lemma accepted_two256:
  assumes "length (H (candidateData P nonce)) = 32" and "target P = two256"
  shows "accepted H P nonce"
proof -
  have "SetBytes (H (candidateData P nonce)) < 256 ^ 32"
    using SetBytes_bound [of "H (candidateData P nonce)"] assms(1) by simp
  then show ?thesis
    using assms(2) by (simp add: accepted_def Cmp_less two256_def)
qed

lemma race_reaches_block:
  assumes n: "workerCount C = 2"
    and r0: "ReadFull (randReader C 0 0) 32 = Inr b0"
    and r1: "ReadFull (randReader C 1 0) 32 = Inr b1"
    and a0: "accepted (Keccak256Hash C) (prob C) (SetBytes b0)"
    and a1: "accepted (Keccak256Hash C) (prob C) (SetBytes b1)"
  shows "exec C raceSchedule initial =
           \<lparr>workers = [\<lparr>pc = Returned, reads = 1\<rparr>, \<lparr>pc = SendingResult (SetBytes b1), reads = 1\<rparr>],
            cancelled = True, wg = 1, mainpc = Wait (Found (SetBytes b0)), tickerStopped = True,
            agg = \<lparr>totalHashCount = 0, printedFrom = []\<rparr>,
            events = [(0, ResultSent (SetBytes b0)), (0, WgDone)]\<rparr>"
  using assms
  by (simp add: raceSchedule_def initial_def moveWorker_def rand_Int_pass_256)

lemma fold_deliver_cancelled [simp]: "cancelled (fold deliver evs s) = cancelled s"
proof (induction evs arbitrary: s)
  case Nil show ?case by simp
next
  case (Cons e evs) then show ?case by (cases e) simp_all
qed

lemma moveWorker_cancelled [simp]: "cancelled (moveWorker C i inp s) = cancelled s"
  by (simp add: moveWorker_def Let_def split: prod.splits)

lemma cancelled_step: "cancelled s \<Longrightarrow> cancelled (step C a s)"
  by (cases a) (auto split: mpc.splits wpc.splits)

lemma cancelled_exec: "cancelled s \<Longrightarrow> cancelled (exec C as s)"
  by (induction as arbitrary: s) (simp_all add: cancelled_step)

lemma decided_step:
  assumes "decided (mainpc s) = Some out"
  shows "decided (mainpc (step C a s)) = Some out"
proof (cases a)
  case MainStep
  then show ?thesis using assms by (auto split: mpc.splits)
next
  case (WorkerStep j)
  then show ?thesis using assms by (auto simp: moveWorker_decided split: wpc.splits)
next
  case (MainReceives j)
  then show ?thesis using assms by auto
next
  case (CountReceived j)
  then show ?thesis using assms by (auto simp: moveWorker_decided)
next
  case Tick
  then show ?thesis using assms by auto
qed

lemma decided_exec: "decided (mainpc s) = Some out \<Longrightarrow> decided (mainpc (exec C as s)) = Some out"
  by (induction as arbitrary: s) (simp_all add: decided_step)

lemma consumed_exec:
  assumes "accounted s" and "decided (mainpc s) = Some out"
  shows "consumed (exec C as s) = [out]"
  using accounted_exec [OF assms(1), of C as] decided_exec [OF assms(2), of C as]
  by (simp add: accounted_def)

text \<open>
  Claim C6 at a failing input. Two workers whose first nonces are both accepted (at
  difficulty 0 every nonce is): along \<open>raceSchedule\<close> both reach their send on the
  result channel, \<^verbatim>\<open>main\<close> receives from worker 0 and cancels. Whatever is scheduled
  after that, the context is cancelled and worker 1 is still in its send: it never sees
  the cancellation and never returns.
\<close>

theorem blocked_sender_never_returns:
  assumes "workerCount C = 2"
    and "ReadFull (randReader C 0 0) 32 = Inr b0"
    and "ReadFull (randReader C 1 0) 32 = Inr b1"
    and "accepted (Keccak256Hash C) (prob C) (SetBytes b0)"
    and "accepted (Keccak256Hash C) (prob C) (SetBytes b1)"
  shows "cancelled (exec C (raceSchedule @ as) initial)
       \<and> pc (workers (exec C (raceSchedule @ as) initial) ! 1) = SendingResult (SetBytes b1)"
proof -
  let ?s = "exec C raceSchedule initial"
  note r = race_reaches_block [OF assms]
  have b: "blocked 1 (SendingResult (SetBytes b1)) ?s"
    by (simp add: r blocked_def)
  have a: "accounted ?s"
    using accounted_initial by (rule accounted_exec)
  have c: "cancelled ?s" by (simp add: r)
  show ?thesis
    using blocked_never_finished [OF a b, of C as] cancelled_exec [OF c, of C as]
    by (simp add: exec_append)
qed

text \<open>
  Claim C8 at the same failing input. \<^verbatim>\<open>main\<close> has received exactly the nonce of
  worker 0, and whatever is scheduled after \<open>raceSchedule\<close> it never gets past
  \<^verbatim>\<open>wg.Wait()\<close>: the outcome of the round is never handed on.
\<close>

theorem result_never_delivered:
  assumes "workerCount C = 2"
    and "ReadFull (randReader C 0 0) 32 = Inr b0"
    and "ReadFull (randReader C 1 0) 32 = Inr b1"
    and "accepted (Keccak256Hash C) (prob C) (SetBytes b0)"
    and "accepted (Keccak256Hash C) (prob C) (SetBytes b1)"
  shows "consumed (exec C (raceSchedule @ as) initial) = [Found (SetBytes b0)]
       \<and> mainpc (exec C (raceSchedule @ as) initial) \<noteq> Finished out"
proof -
  let ?s = "exec C raceSchedule initial"
  note r = race_reaches_block [OF assms]
  have b: "blocked 1 (SendingResult (SetBytes b1)) ?s"
    by (simp add: r blocked_def)
  have a: "accounted ?s"
    using accounted_initial by (rule accounted_exec)
  have d: "decided (mainpc ?s) = Some (Found (SetBytes b0))" by (simp add: r)
  show ?thesis
    using blocked_never_finished [OF a b, of C as] consumed_exec [OF a d, of C as]
    by (simp add: exec_append)
qed

lemma demo_accepts [simp]:
  "accepted (Keccak256Hash (demoConfig two256 n)) (prob (demoConfig two256 n)) nonce"
  by (rule accepted_two256) (simp_all add: demoConfig_def)

lemma demo_workerCount [simp]: "workerCount (demoConfig d n) = n"
  by (simp add: demoConfig_def)

lemma demo_reads [simp]:
  "ReadFull (randReader (demoConfig d n) i k) 32 = Inr (replicate 31 0 @ [of_nat (7 + i + 2 * k)])"
  by (simp add: demoConfig_def ReadFull_exact)

theorem blocked_sender_never_returns_witness:
  "cancelled (exec (demoConfig two256 2) (raceSchedule @ [WorkerStep 1, MainStep, Tick]) initial)
   \<and> pc (workers (exec (demoConfig two256 2) (raceSchedule @ [WorkerStep 1, MainStep, Tick]) initial) ! 1)
       = SendingResult 8"
  using blocked_sender_never_returns [of "demoConfig two256 2" "replicate 31 0 @ [7]" "replicate 31 0 @ [8]"
      "[WorkerStep 1, MainStep, Tick]"]
  by simp

theorem result_never_delivered_witness:
  "consumed (exec (demoConfig two256 2) (raceSchedule @ [MainStep, MainReceives 1, MainStep]) initial) = [Found 7]
   \<and> mainpc (exec (demoConfig two256 2) (raceSchedule @ [MainStep, MainReceives 1, MainStep]) initial)
       \<noteq> Finished (Found 7)"
  using result_never_delivered [of "demoConfig two256 2" "replicate 31 0 @ [7]" "replicate 31 0 @ [8]"
      "[MainStep, MainReceives 1, MainStep]" "Found 7"]
  by simp


section \<open>What a blocked worker never does\<close>

lemma moveWorker_eventsOf:
  assumes "j \<noteq> i"
  shows "eventsOf i (moveWorker C j inp s) = eventsOf i s"
proof -
  obtain p' evs where m: "mineWorker (Keccak256Hash C) (prob C) (pc (workers s ! j)) inp = (p', evs)"
    by (cases "mineWorker (Keccak256Hash C) (prob C) (pc (workers s ! j)) inp")
  have "filter (\<lambda>(k, e). k = i) (map (Pair j) evs) = []"
    using assms by (induction evs) simp_all
  then show ?thesis by (simp add: eventsOf_def moveWorker_events [OF m])
qed

lemma eventsOf_step:
  assumes b: "blocked i p s"
  shows "eventsOf i (step C a s) = eventsOf i s"
proof (cases a)
  case MainStep
  then show ?thesis by (auto simp: eventsOf_def split: mpc.splits)
next
  case (WorkerStep j)
  show ?thesis
  proof (cases "j = i")
    case True
    then show ?thesis using b WorkerStep by (auto simp: blocked_def split: wpc.splits)
  next
    case False
    then show ?thesis using WorkerStep by (auto simp: moveWorker_eventsOf split: wpc.splits)
  qed
next
  case (MainReceives j)
  show ?thesis
  proof (cases "j = i")
    case True
    then show ?thesis using b MainReceives by (auto simp: blocked_def)
  next
    case False
    then show ?thesis using MainReceives by (auto simp: moveWorker_eventsOf split: wpc.splits)
  qed
next
  case (CountReceived j)
  show ?thesis
  proof (cases "j = i")
    case True
    then show ?thesis using b CountReceived by (auto simp: blocked_def split: wpc.splits)
  next
    case False
    then show ?thesis using CountReceived by (auto simp: moveWorker_eventsOf)
  qed
next
  case Tick
  then show ?thesis by (auto simp: eventsOf_def)
qed

lemma eventsOf_exec: "blocked i p s \<Longrightarrow> eventsOf i (exec C as s) = eventsOf i s"
proof (induction as arbitrary: s)
  case Nil
  then show ?case by simp
next
  case (Cons a as)
  have "blocked i p (step C a s)" using Cons.prems by (rule blocked_step)
  then have "eventsOf i (exec C as (step C a s)) = eventsOf i (step C a s)" by (rule Cons.IH)
  then show ?case using eventsOf_step [OF Cons.prems, of C a] by simp
qed

lemma race_reaches_block_failed:
  assumes n: "workerCount C = 2"
    and r0: "ReadFull (randReader C 0 0) 32 = Inl e0"
    and r1: "ReadFull (randReader C 1 0) 32 = Inl e1"
  shows "exec C raceSchedule initial =
           \<lparr>workers = [\<lparr>pc = Returned, reads = 1\<rparr>,
                       \<lparr>pc = SendingError (''failed to generate random nonce: '' @ e1), reads = 1\<rparr>],
            cancelled = True, wg = 1,
            mainpc = Wait (Failed (''failed to generate random nonce: '' @ e0)),
            tickerStopped = False,
            agg = \<lparr>totalHashCount = 0, printedFrom = []\<rparr>,
            events = [(0, ErrorSent (''failed to generate random nonce: '' @ e0)), (0, WgDone)]\<rparr>"
  using assms
  by (simp add: raceSchedule_def initial_def moveWorker_def rand_Int_pass_256)

text \<open>
  Claim C4 at a failing input. Two workers whose first nonces are both accepted (at
  difficulty 0 every nonce is): along \<open>raceSchedule\<close> both are in their send on the
  result channel and \<^verbatim>\<open>main\<close> receives from worker 0 only. Whatever is scheduled after
  that, worker 1, whose candidate is accepted, has reported nothing, its nonce
  included, and has not returned.
\<close>

theorem accepted_nonce_never_reported:
  assumes "workerCount C = 2"
    and "ReadFull (randReader C 0 0) 32 = Inr b0"
    and "ReadFull (randReader C 1 0) 32 = Inr b1"
    and "accepted (Keccak256Hash C) (prob C) (SetBytes b0)"
    and "accepted (Keccak256Hash C) (prob C) (SetBytes b1)"
  shows "eventsOf 1 (exec C (raceSchedule @ as) initial) = []
       \<and> pc (workers (exec C (raceSchedule @ as) initial) ! 1) \<noteq> Returned"
proof -
  let ?s = "exec C raceSchedule initial"
  note r = race_reaches_block [OF assms]
  have b: "blocked 1 (SendingResult (SetBytes b1)) ?s"
    by (simp add: r blocked_def)
  have a: "accounted ?s"
    using accounted_initial by (rule accounted_exec)
  have e: "eventsOf 1 ?s = []" by (simp add: r eventsOf_def)
  show ?thesis
    using blocked_never_finished [OF a b, of C as] eventsOf_exec [OF b, of C as] e
    by (simp add: exec_append)
qed

theorem accepted_nonce_never_reported_witness:
  "accepted (Keccak256Hash (demoConfig two256 2)) (prob (demoConfig two256 2)) 8
   \<and> eventsOf 1 (exec (demoConfig two256 2) (raceSchedule @ [WorkerStep 1, MainReceives 1, Tick]) initial)
       = []
   \<and> pc (workers (exec (demoConfig two256 2) (raceSchedule @ [WorkerStep 1, MainReceives 1, Tick]) initial) ! 1)
       \<noteq> Returned"
  using accepted_nonce_never_reported [of "demoConfig two256 2" "replicate 31 0 @ [7]"
      "replicate 31 0 @ [8]" "[WorkerStep 1, MainReceives 1, Tick]"]
  by simp

text \<open>
  Claim C5 at a failing input. Two workers whose first read of the random source
  fails: along \<open>raceSchedule\<close> both are in their send on the error channel and \<^verbatim>\<open>main\<close>
  receives from worker 0 only. Whatever is scheduled after that, worker 1 has reported
  nothing, its error included, and is still in its send: it has not stopped.
\<close>

theorem failed_read_never_reported:
  assumes "workerCount C = 2"
    and "ReadFull (randReader C 0 0) 32 = Inl e0"
    and "ReadFull (randReader C 1 0) 32 = Inl e1"
  shows "eventsOf 1 (exec C (raceSchedule @ as) initial) = []
       \<and> pc (workers (exec C (raceSchedule @ as) initial) ! 1)
           = SendingError (''failed to generate random nonce: '' @ e1)"
proof -
  let ?s = "exec C raceSchedule initial"
  note r = race_reaches_block_failed [OF assms]
  have b: "blocked 1 (SendingError (''failed to generate random nonce: '' @ e1)) ?s"
    by (simp add: r blocked_def)
  have a: "accounted ?s"
    using accounted_initial by (rule accounted_exec)
  have e: "eventsOf 1 ?s = []" by (simp add: r eventsOf_def)
  show ?thesis
    using blocked_never_finished [OF a b, of C as] eventsOf_exec [OF b, of C as] e
    by (simp add: exec_append)
qed

theorem failed_read_never_reported_witness:
  "ReadFull (randReader failingConfig 1 0) 32 = Inl ''no entropy''
   \<and> eventsOf 1 (exec failingConfig (raceSchedule @ [WorkerStep 1, MainReceives 1, MainStep]) initial)
       = []
   \<and> pc (workers (exec failingConfig (raceSchedule @ [WorkerStep 1, MainReceives 1, MainStep]) initial) ! 1)
       = SendingError ''failed to generate random nonce: no entropy''"
  using failed_read_never_reported [of failingConfig "''no entropy''" "''no entropy''"
      "[WorkerStep 1, MainReceives 1, MainStep]"]
  by (simp add: failingConfig_def ReadFull_def)

section \<open>The wait group\<close>





section \<open>What \<^verbatim>\<open>main\<close> checks before the workers start\<close>









section \<open>The outcome of a round that ends\<close>

text \<open>
  Along every schedule the \<^verbatim>\<open>select\<close> of \<^verbatim>\<open>main\<close> receives at most one message, and
  a round that gets past \<^verbatim>\<open>wg.Wait()\<close> hands on exactly that one; after that no worker
  sends or moves again.
\<close>

lemma at_most_one_outcome:
  "length (consumed (exec C sched initial)) \<le> 1
   \<and> (mainpc (exec C sched initial) = Finished out \<longrightarrow> consumed (exec C sched initial) = [out])"
proof -
  have "accounted (exec C sched initial)"
    using accounted_initial by (rule accounted_exec)
  then show ?thesis by (auto simp: accounted_def split: option.splits)
qed

lemma finished_step:
  assumes a: "accounted s" and f: "mainpc s = Finished out"
  shows "step C a' s = s \<or> step C a' s = s\<lparr>agg := aggregate TickerC (agg s)\<rparr>"
proof -
  have "running s = 0" using a f by (simp add: accounted_def)
  then have r: "\<And>i. i < length (workers s) \<Longrightarrow> pc (workers s ! i) = Returned"
    by (rule running_zero)
  show ?thesis using f r by (cases a') auto
qed

lemma quiet_after_finish:
  assumes "accounted s" and "mainpc s = Finished out"
  shows "events (exec C as s) = events s \<and> workers (exec C as s) = workers s
       \<and> mainpc (exec C as s) = Finished out"
  using assms
proof (induction as arbitrary: s)
  case Nil
  then show ?case by simp
next
  case (Cons a' as)
  have acc: "accounted (step C a' s)" using Cons.prems(1) by (rule accounted_step)
  from finished_step [OF Cons.prems, of C a']
  have same: "events (step C a' s) = events s \<and> workers (step C a' s) = workers s
      \<and> mainpc (step C a' s) = Finished out"
    using Cons.prems(2) by auto
  then show ?case using Cons.IH [OF acc] by simp
qed


end
